theory Spec2Isabelle
  imports Complex_Main "HOL-Library.Log_Nat" "HOL-Library.Multiset"
begin

section \<open>Double-precision arithmetic\<close>

text \<open>
  The rates of the program are values of the expression \<^verbatim>\<open>a / max(1, b) * 100\<close> on
  integers: Python divides the two integers into the double nearest to the quotient
  (ties to the even significand) and multiplies that double by 100.0, rounding again.
  A double is a pair \<open>(m, p)\<close> standing for \<open>m * 2 ^ p\<close>; \<open>double_value\<close> is the
  number it stands for.
  \<^item> \<open>round_half_even a b\<close> is the integer nearest to \<open>a / b\<close>, for \<open>b > 0\<close>.
  \<^item> \<open>float_exponent a b\<close> is the \<open>e\<close> with \<open>2 ^ e \<le> |a| / b < 2 ^ (e + 1)\<close>, found
    from the bit lengths, for \<open>a \<noteq> 0\<close> and \<open>b > 0\<close>.
  \<^item> \<open>round_to_double a b\<close> is the double nearest to \<open>a / b\<close>: its last place is
    \<open>2 ^ (e - 52)\<close> (53 significant bits), and \<open>2 ^ (- 1074)\<close> for the subnormal numbers
    below \<open>2 ^ (- 1022)\<close>.
  Both divisions of the program divide by \<^verbatim>\<open>max(1, ...)\<close>, so the divisor is positive.
  The quotient is at most 1 as long as no counter is negative and the primes found are
  not more than the attempts, which holds in every state that the methods reach
  (\<open>run_calls_counters_nonneg\<close>, \<open>hunt_prime_found_le_attempts\<close> below). A quotient
  or a product of \<open>2 ^ 1024\<close> or more (\<^verbatim>\<open>OverflowError\<close> in the division, infinity in
  the product) arises in no such state and is not part of the model.
\<close>

type_synonym double = "int \<times> int"

definition double_value :: "double \<Rightarrow> real" where
  "double_value x =
     (case x of (m, p) \<Rightarrow>
        if 0 \<le> p then real_of_int m * 2 ^ nat p else real_of_int m / 2 ^ nat (- p))"

definition round_half_even :: "int \<Rightarrow> int \<Rightarrow> int" where
  "round_half_even a b =
     (let q = a div b; r = a mod b
      in if 2 * r < b then q
         else if 2 * r > b then q + 1
         else if even q then q else q + 1)"

definition float_exponent :: "int \<Rightarrow> int \<Rightarrow> int" where
  "float_exponent a b =
     (let d = bitlen \<bar>a\<bar> - bitlen b
      in if (if 0 \<le> d then b * 2 ^ nat d \<le> \<bar>a\<bar> else b \<le> \<bar>a\<bar> * 2 ^ nat (- d))
         then d else d - 1)"

definition round_to_double :: "int \<Rightarrow> int \<Rightarrow> double" where
  "round_to_double a b =
     (if a = 0 then (0, 0)
      else (let p = max (float_exponent a b - 52) (- 1074)
            in (if 0 \<le> p then round_half_even a (b * 2 ^ nat p)
                else round_half_even (a * 2 ^ nat (- p)) b, p)))"

text \<open>Python's \<^verbatim>\<open>a / b\<close> on integers with \<open>b > 0\<close>, and the product of two doubles.\<close>

definition int_truediv :: "int \<Rightarrow> int \<Rightarrow> double" where
  "int_truediv a b = round_to_double a b"

definition float_mul :: "double \<Rightarrow> double \<Rightarrow> double" where
  "float_mul x y =
     (case x of (m1, p1) \<Rightarrow> case y of (m2, p2) \<Rightarrow>
        (let m = m1 * m2; p = p1 + p2
         in if 0 \<le> p then round_to_double (m * 2 ^ nat p) 1
            else round_to_double m (2 ^ nat (- p))))"

section \<open>The circuit breaker\<close>

text \<open>
  The class \<^verbatim>\<open>CircuitBreaker\<close> of \<^verbatim>\<open>prime_circuit_breaker.py\<close>. Its attributes are the
  fields of a record (the leading underscore of the private ones is dropped). Counters
  are Python integers, hence \<^typ>\<open>int\<close>. Clock readings and the cooldown are modelled as
  \<^typ>\<open>real\<close>. The two rates are computed in double precision, as the code computes
  them. Every call of \<^verbatim>\<open>time.time()\<close> is an explicit argument of the method that
  makes it, one argument per call, in the order of the calls. The \<^verbatim>\<open>print\<close> statements
  write to the console only and are left out.
\<close>

record CircuitBreaker =
  failure_threshold :: int
  cooldown_seconds :: real
  tripped_until :: real
  consecutive_failures :: int
  total_failures :: int
  total_successes :: int
  last_failure_time :: "real option"

definition CircuitBreaker_init :: "int \<Rightarrow> real \<Rightarrow> CircuitBreaker" where
  "CircuitBreaker_init threshold cooldown =
     \<lparr>failure_threshold = threshold, cooldown_seconds = cooldown, tripped_until = 0,
      consecutive_failures = 0, total_failures = 0, total_successes = 0,
      last_failure_time = None\<rparr>"

definition allow :: "real \<Rightarrow> CircuitBreaker \<Rightarrow> bool" where
  "allow now cb \<longleftrightarrow> now > tripped_until cb"

text \<open>
  \<^verbatim>\<open>trip\<close> reads the clock twice: \<open>t_fail\<close> is stored as the time of the failure,
  \<open>t_open\<close> is the reading the cooldown is added to.
\<close>

definition trip :: "real \<Rightarrow> real \<Rightarrow> CircuitBreaker \<Rightarrow> CircuitBreaker" where
  "trip t_fail t_open cb =
     (let cb1 = cb\<lparr>consecutive_failures := consecutive_failures cb + 1,
                    total_failures := total_failures cb + 1,
                    last_failure_time := Some t_fail\<rparr>
      in if consecutive_failures cb1 \<ge> failure_threshold cb1
         then cb1\<lparr>tripped_until := t_open + cooldown_seconds cb1\<rparr>
         else cb1)"

text \<open>
  \<^verbatim>\<open>reset\<close> reads the clock once, for \<^verbatim>\<open>was_open\<close>, which only selects whether the
  reset notice is printed; no attribute depends on the reading \<open>now\<close>.
\<close>

definition reset :: "real \<Rightarrow> CircuitBreaker \<Rightarrow> CircuitBreaker" where
  "reset now cb =
     cb\<lparr>tripped_until := 0, consecutive_failures := 0,
        total_successes := total_successes cb + 1\<rparr>"

definition record_success :: "real \<Rightarrow> real \<Rightarrow> CircuitBreaker \<Rightarrow> CircuitBreaker" where
  "record_success t_allow t_reset cb =
     (if allow t_allow cb
      then cb\<lparr>consecutive_failures := 0, total_successes := total_successes cb + 1\<rparr>
      else reset t_reset cb)"

record CircuitBreakerStats =
  stats_is_open :: bool
  stats_consecutive_failures :: int
  stats_total_failures :: int
  stats_total_successes :: int
  stats_failure_threshold :: int
  stats_cooldown_seconds :: real
  stats_next_retry_time :: "real option"
  stats_seconds_until_retry :: real
  stats_success_rate :: real

text \<open>
  \<^verbatim>\<open>get_stats\<close> reads the clock in \<^verbatim>\<open>allow\<close> and once more for the remaining seconds.
\<close>

definition get_stats :: "real \<Rightarrow> real \<Rightarrow> CircuitBreaker \<Rightarrow> CircuitBreakerStats" where
  "get_stats t_allow t_retry cb =
     (let is_open = \<not> allow t_allow cb in
      \<lparr>stats_is_open = is_open,
       stats_consecutive_failures = consecutive_failures cb,
       stats_total_failures = total_failures cb,
       stats_total_successes = total_successes cb,
       stats_failure_threshold = failure_threshold cb,
       stats_cooldown_seconds = cooldown_seconds cb,
       stats_next_retry_time = (if is_open then Some (tripped_until cb) else None),
       stats_seconds_until_retry = (if is_open then max 0 (tripped_until cb - t_retry) else 0),
       stats_success_rate =
         double_value
           (float_mul
             (int_truediv (total_successes cb)
               (max 1 (total_successes cb + total_failures cb)))
             (100, 0))\<rparr>)"

text \<open>
  A run of the breaker is a list of method calls, each with the clock readings it makes.
  \<^verbatim>\<open>allow\<close> and \<^verbatim>\<open>get_stats\<close> assign no attribute, so they leave the state as it is.
\<close>

datatype breaker_call =
    Call_trip real real
  | Call_reset real
  | Call_record_success real real
  | Call_allow real
  | Call_get_stats real real

fun perform :: "breaker_call \<Rightarrow> CircuitBreaker \<Rightarrow> CircuitBreaker" where
  "perform (Call_trip t_fail t_open) cb = trip t_fail t_open cb"
| "perform (Call_reset now) cb = reset now cb"
| "perform (Call_record_success t_allow t_reset) cb = record_success t_allow t_reset cb"
| "perform (Call_allow now) cb = cb"
| "perform (Call_get_stats t_allow t_retry) cb = cb"

definition run_calls :: "breaker_call list \<Rightarrow> CircuitBreaker \<Rightarrow> CircuitBreaker" where
  "run_calls cs cb = fold perform cs cb"

text \<open>Consecutive calls of \<^verbatim>\<open>trip\<close>, one pair of clock readings for each call.\<close>

definition trips :: "(real \<times> real) list \<Rightarrow> CircuitBreaker \<Rightarrow> CircuitBreaker" where
  "trips ts cb = fold (\<lambda>(t_fail, t_open). trip t_fail t_open) ts cb"

text \<open>The bound kept by every method: the streak is part of the lifetime count.\<close>

definition streak_bounded :: "CircuitBreaker \<Rightarrow> bool" where
  "streak_bounded cb \<longleftrightarrow>
     consecutive_failures cb \<le> total_failures cb \<and> 0 \<le> total_failures cb"

definition counters_nonneg :: "CircuitBreaker \<Rightarrow> bool" where
  "counters_nonneg cb \<longleftrightarrow> 0 \<le> total_successes cb \<and> 0 \<le> total_failures cb"

section \<open>The primality test\<close>

datatype py_error = OverflowError | ValueError

text \<open>
  \<^verbatim>\<open>is_prime\<close> computes its loop bound as \<^verbatim>\<open>int(math.sqrt(n))\<close>, in double precision.
  The bound decides which divisors are tried, so the three steps are written out, on
  integers:
  \<^item> \<open>py_float\<close>: the conversion of a positive integer to a double. An integer of at
    most 53 bits is kept; a longer one loses its low \<open>sh\<close> bits, rounded to the nearest
    53-bit significand, a tie going to the even one. The call raises
    \<^verbatim>\<open>OverflowError\<close> when the rounded value reaches \<open>2 ^ 1024\<close>. The double is given
    as the integer it denotes.
  \<^item> \<open>sqrt_double\<close>: the square root of that double, correctly rounded. With
    \<open>4 ^ k \<le> x < 4 ^ (k + 1)\<close> the root lies between \<open>2 ^ k\<close> and \<open>2 ^ (k + 1)\<close>, so
    the result is \<open>m * 2 ^ e\<close> with \<open>e = k - 52\<close> and \<open>m\<close> the integer nearest to the
    root divided by \<open>2 ^ e\<close>; the result is the pair \<open>(m, e)\<close>. The test
    \<open>z > m0 * m0 + m0\<close> says that the root of \<open>z\<close> is above \<open>m0 + 1/2\<close>. The root of a
    double is never half way between two doubles.
  \<^item> \<open>int_of_double\<close>: \<^verbatim>\<open>int\<close> truncates.
  \<open>floor_sqrt\<close> is the integer square root, used by \<open>sqrt_double\<close> and as the
  specification's \<open>floor(sqrt(n))\<close>.
\<close>

function floor_sqrt :: "int \<Rightarrow> int" where
  "floor_sqrt n =
     (if n < 1 then 0
      else (let r = 2 * floor_sqrt (n div 4)
            in if (r + 1) * (r + 1) \<le> n then r + 1 else r))"
  by pat_completeness auto
termination
  by (relation "measure nat") auto

definition py_float :: "int \<Rightarrow> py_error + int" where
  "py_float n =
     (let b = bitlen n;
          x = (if b \<le> 53 then n
               else (let sh = nat (b - 53);
                         q = n div 2 ^ sh;
                         r = n mod 2 ^ sh;
                         half = 2 ^ (sh - 1)
                     in (if r > half \<or> (r = half \<and> odd q) then q + 1 else q) * 2 ^ sh))
      in if x \<ge> 2 ^ 1024 then Inl OverflowError else Inr x)"

definition sqrt_double :: "int \<Rightarrow> int \<times> int" where
  "sqrt_double x =
     (let k = (bitlen x - 1) div 2; e = k - 52 in
      if e \<le> 0
      then (let z = x * 4 ^ nat (- e); m0 = floor_sqrt z
            in (if z > m0 * m0 + m0 then m0 + 1 else m0, e))
      else (let m0 = floor_sqrt (x div 4 ^ nat e)
            in (if x > 4 ^ nat e * (m0 * m0 + m0) + 4 ^ nat (e - 1) then m0 + 1 else m0, e)))"

definition math_sqrt :: "int \<Rightarrow> py_error + int \<times> int" where
  "math_sqrt n =
     (if n < 0 then Inl ValueError
      else if n = 0 then Inr (0, 0)
      else (case py_float n of Inl err \<Rightarrow> Inl err | Inr x \<Rightarrow> Inr (sqrt_double x)))"

definition int_of_double :: "int \<times> int \<Rightarrow> int" where
  "int_of_double y = (case y of (m, e) \<Rightarrow> if e \<ge> 0 then m * 2 ^ nat e else m div 2 ^ nat (- e))"

text \<open>The loop \<^verbatim>\<open>for i in range(3, stop, 2)\<close>, entered at \<open>i\<close>.\<close>

function is_prime_loop :: "int \<Rightarrow> int \<Rightarrow> int \<Rightarrow> bool" where
  "is_prime_loop n i stop =
     (if i < stop then (if n mod i = 0 then False else is_prime_loop n (i + 2) stop)
      else True)"
  by pat_completeness auto
termination
  by (relation "measure (\<lambda>(n, i, stop). nat (stop - i))") auto

declare floor_sqrt.simps [simp del] is_prime_loop.simps [simp del]

definition is_prime :: "int \<Rightarrow> py_error + bool" where
  "is_prime n =
     (if n < 2 then Inr False
      else if n = 2 then Inr True
      else if n mod 2 = 0 then Inr False
      else (case math_sqrt n of
              Inl err \<Rightarrow> Inl err
            | Inr y \<Rightarrow> Inr (is_prime_loop n 3 (int_of_double y + 1))))"

text \<open>
  What the specification means by a prime number: an integer above 1 whose only positive
  divisors are 1 and itself.
\<close>

definition prime_number :: "int \<Rightarrow> bool" where
  "prime_number n \<longleftrightarrow> 1 < n \<and> (\<forall>d. 0 < d \<and> d dvd n \<longrightarrow> d = 1 \<or> d = n)"

text \<open>
  \<^verbatim>\<open>random.randint(min_val, max_val)\<close> raises \<^verbatim>\<open>ValueError\<close> on an empty range and
  otherwise returns some integer of the range. The choice is an input of the model: the
  draw \<open>r\<close> selects the value, and every value of the range is selected by some draw.
\<close>

definition generate_random_number :: "nat \<Rightarrow> int \<Rightarrow> int \<Rightarrow> py_error + int" where
  "generate_random_number r min_val max_val =
     (if min_val > max_val then Inl ValueError
      else Inr (min_val + int r mod (max_val - min_val + 1)))"

section \<open>The prime hunter\<close>

record PrimeHunter =
  circuit_breaker :: CircuitBreaker
  min_num :: int
  max_num :: int
  primes_found :: "int list"
  attempts :: int

definition PrimeHunter_init :: "int \<Rightarrow> real \<Rightarrow> int \<Rightarrow> int \<Rightarrow> PrimeHunter" where
  "PrimeHunter_init threshold cooldown lo hi =
     \<lparr>circuit_breaker = CircuitBreaker_init threshold cooldown,
      min_num = lo, max_num = hi, primes_found = [], attempts = 0\<rparr>"

text \<open>
  A constructor call returns the new object unless \<^verbatim>\<open>__init__\<close> raises. Neither
  \<^verbatim>\<open>__init__\<close> has a \<^verbatim>\<open>raise\<close> or a check of its arguments, so both calls return.
\<close>

definition new_CircuitBreaker :: "int \<Rightarrow> real \<Rightarrow> py_error + CircuitBreaker" where
  "new_CircuitBreaker threshold cooldown = Inr (CircuitBreaker_init threshold cooldown)"

definition new_PrimeHunter :: "int \<Rightarrow> real \<Rightarrow> int \<Rightarrow> int \<Rightarrow> py_error + PrimeHunter" where
  "new_PrimeHunter threshold cooldown lo hi = Inr (PrimeHunter_init threshold cooldown lo hi)"

text \<open>
  \<^verbatim>\<open>hunt_prime\<close> returns its result together with the hunter it leaves behind; an exception
  leaves the hunter as mutated up to the raise. The clock is read once by \<^verbatim>\<open>allow\<close>
  (\<open>t0\<close>) and then twice more on each path (\<open>t1\<close>, \<open>t2\<close>): by \<^verbatim>\<open>get_stats\<close> when
  blocked, by \<^verbatim>\<open>record_success\<close> on a prime, by \<^verbatim>\<open>trip\<close> otherwise.
\<close>

definition hunt_prime ::
  "real \<Rightarrow> real \<Rightarrow> real \<Rightarrow> nat \<Rightarrow> PrimeHunter \<Rightarrow> (py_error + bool) \<times> PrimeHunter" where
  "hunt_prime t0 t1 t2 r h =
     (if \<not> allow t0 (circuit_breaker h)
      then (let stats = get_stats t1 t2 (circuit_breaker h) in (Inr False, h))
      else (let h1 = h\<lparr>attempts := attempts h + 1\<rparr> in
            case generate_random_number r (min_num h1) (max_num h1) of
              Inl err \<Rightarrow> (Inl err, h1)
            | Inr number \<Rightarrow>
                (case is_prime number of
                   Inl err \<Rightarrow> (Inl err, h1)
                 | Inr True \<Rightarrow>
                     (Inr True,
                      h1\<lparr>primes_found := primes_found h1 @ [number],
                         circuit_breaker := record_success t1 t2 (circuit_breaker h1)\<rparr>)
                 | Inr False \<Rightarrow>
                     (Inr False,
                      h1\<lparr>circuit_breaker := trip t1 t2 (circuit_breaker h1)\<rparr>))))"

record HunterSummary =
  sum_attempts :: int
  sum_primes_found :: nat
  sum_largest_prime :: "int option"
  sum_prime_hit_rate :: real
  sum_circuit_breaker :: CircuitBreakerStats
  sum_recent_primes :: "int list"

text \<open>Python's \<^verbatim>\<open>max\<close> of a non-empty list, and the slice \<^verbatim>\<open>xs[-5:]\<close>.\<close>

fun max_list :: "int list \<Rightarrow> int option" where
  "max_list [] = None"
| "max_list (x # xs) = Some (fold max xs x)"

definition last5 :: "'a list \<Rightarrow> 'a list" where
  "last5 xs = drop (length xs - 5) xs"

definition sorted_reverse :: "int list \<Rightarrow> int list" where
  "sorted_reverse xs = rev (sort xs)"

definition get_summary :: "real \<Rightarrow> real \<Rightarrow> PrimeHunter \<Rightarrow> HunterSummary" where
  "get_summary t_allow t_retry h =
     (let cb_stats = get_stats t_allow t_retry (circuit_breaker h) in
      \<lparr>sum_attempts = attempts h,
       sum_primes_found = length (primes_found h),
       sum_largest_prime = max_list (primes_found h),
       sum_prime_hit_rate =
         double_value
           (float_mul
             (int_truediv (int (length (primes_found h))) (max 1 (attempts h)))
             (100, 0)),
       sum_circuit_breaker = cb_stats,
       sum_recent_primes = sorted_reverse (last5 (primes_found h))\<rparr>)"

section \<open>Facts about single calls\<close>


lemma trip_total_failures:
  "total_failures (trip t_fail t_open cb) = total_failures cb + 1"
  by (simp add: trip_def Let_def)










section \<open>The rounding of the rates\<close>

text \<open>
  The double nearest to a quotient is within half a unit of its last place, and the
  percentage of a part \<open>a\<close> of a whole \<open>b\<close>, computed as the program computes it, is
  within \<open>2 ^ (- 45)\<close> of the exact percentage.
\<close>

lemma round_half_even_cases:
  "round_half_even a b = a div b \<and> 2 * (a mod b) \<le> b
   \<or> round_half_even a b = a div b + 1 \<and> b \<le> 2 * (a mod b)"
  by (simp add: round_half_even_def Let_def)

lemma round_half_even_near_int:
  assumes "0 < b"
  shows "2 * \<bar>round_half_even a b * b - a\<bar> \<le> b"
proof -
  define q where "q = a div b"
  define r where "r = a mod b"
  have a: "a = q * b + r" by (simp add: q_def r_def)
  have r: "0 \<le> r" "r < b" using assms by (simp_all add: r_def)
  from round_half_even_cases [of a b]
  consider "round_half_even a b = q" "2 * r \<le> b" | "round_half_even a b = q + 1" "b \<le> 2 * r"
    by (auto simp: q_def r_def)
  then show ?thesis
  proof cases
    case 1
    have "round_half_even a b * b - a = - r" unfolding 1(1) by (simp add: a)
    with r 1 show ?thesis by simp
  next
    case 2
    have "round_half_even a b * b - a = b - r" unfolding 2(1) by (simp add: a algebra_simps)
    with r 2 show ?thesis by simp
  qed
qed

lemma round_half_even_near:
  assumes "0 < b"
  shows "\<bar>real_of_int (round_half_even a b) - real_of_int a / real_of_int b\<bar> \<le> 1 / 2"
proof -
  define m where "m = round_half_even a b"
  have "real_of_int (2 * \<bar>m * b - a\<bar>) \<le> real_of_int b"
    using round_half_even_near_int [OF assms, of a] unfolding m_def by (simp only: of_int_le_iff)
  then have "2 * \<bar>real_of_int m * real_of_int b - real_of_int a\<bar> \<le> real_of_int b"
    by simp
  moreover have "real_of_int m - real_of_int a / real_of_int b
      = (real_of_int m * real_of_int b - real_of_int a) / real_of_int b"
    using assms by (simp add: field_simps)
  ultimately show ?thesis
    using assms unfolding m_def [symmetric] by (simp add: abs_divide field_simps)
qed

lemma round_half_even_nonneg: "0 \<le> a \<Longrightarrow> 0 < b \<Longrightarrow> 0 \<le> round_half_even a b"
  using round_half_even_cases [of a b] by (auto simp: pos_imp_zdiv_nonneg_iff)

lemma float_exponent_lower:
  assumes "0 < a" "0 < b"
  shows "(0 \<le> float_exponent a b \<longrightarrow> b * 2 ^ nat (float_exponent a b) \<le> a)
    \<and> (float_exponent a b < 0 \<longrightarrow> b \<le> a * 2 ^ nat (- float_exponent a b))"
proof -
  define la where "la = bitlen a"
  define lb where "lb = bitlen b"
  define d where "d = la - lb"
  have a: "2 ^ nat (la - 1) \<le> a" using bitlen_bounds [OF assms(1)] by (simp add: la_def)
  have b: "b < 2 ^ nat lb" using bitlen_bounds [OF assms(2)] by (simp add: lb_def)
  have la1: "1 \<le> la" using assms(1) bitlen_eq_zero_iff [of a] bitlen_nonneg [of a]
    unfolding la_def by linarith
  have lb1: "1 \<le> lb" using assms(2) bitlen_eq_zero_iff [of b] bitlen_nonneg [of b]
    unfolding lb_def by linarith
  define t where "t \<longleftrightarrow> (if 0 \<le> d then b * 2 ^ nat d \<le> a else b \<le> a * 2 ^ nat (- d))"
  have fe: "float_exponent a b = (if t then d else d - 1)"
    using assms(1) by (simp add: float_exponent_def Let_def t_def d_def la_def lb_def)
  show ?thesis
  proof (cases t)
    case True
    then show ?thesis unfolding fe by (auto simp: t_def split: if_splits)
  next
    case False
    have low: "b * 2 ^ nat (d - 1) \<le> a" if "1 \<le> d"
    proof -
      have "b * 2 ^ nat (d - 1) \<le> 2 ^ nat lb * 2 ^ nat (d - 1)"
        using b by (intro mult_right_mono) auto
      also have "\<dots> = 2 ^ (nat lb + nat (d - 1))" by (simp add: power_add)
      also have "nat lb + nat (d - 1) = nat (la - 1)" using that lb1 by (simp add: d_def)
      finally show ?thesis using a by linarith
    qed
    have high: "b \<le> a * 2 ^ nat (1 - d)" if "d \<le> 0"
    proof -
      have "(2::int) ^ nat lb = 2 ^ (nat (la - 1) + nat (1 - d))"
        using that la1 lb1 by (intro arg_cong [where f = "power 2"]) (simp add: d_def)
      also have "\<dots> = 2 ^ nat (la - 1) * 2 ^ nat (1 - d)" by (simp add: power_add)
      also have "\<dots> \<le> a * 2 ^ nat (1 - d)" using a by (intro mult_right_mono) auto
      finally show ?thesis using b by linarith
    qed
    have "float_exponent a b = d - 1" using False fe by simp
    then show ?thesis using low high by auto
  qed
qed

lemma float_exponent_less:
  assumes "0 < a" "0 < b" "a < b * 2 ^ n"
  shows "float_exponent a b < int n"
proof (rule ccontr)
  assume "\<not> float_exponent a b < int n"
  then have n: "n \<le> nat (float_exponent a b)" "0 \<le> float_exponent a b" by simp_all
  from float_exponent_lower [OF assms(1,2)] n(2)
  have "b * 2 ^ nat (float_exponent a b) \<le> a" by simp
  moreover have "b * 2 ^ n \<le> b * 2 ^ nat (float_exponent a b)"
    using assms(2) n(1) by (intro mult_left_mono power_increasing) auto
  ultimately show False using assms(3) by linarith
qed

lemma round_to_double_near:
  assumes a: "0 < a" and b: "0 < b" and lt: "a < b * 2 ^ n" and n: "n \<le> 52"
  shows "\<exists>m k. round_to_double a b = (m, - int k) \<and> 0 \<le> m \<and> 53 \<le> k + n
    \<and> double_value (round_to_double a b) = real_of_int m / 2 ^ k
    \<and> \<bar>real_of_int m / 2 ^ k - real_of_int a / real_of_int b\<bar> \<le> 2 ^ n / 2 ^ 54"
proof -
  define p where "p = max (float_exponent a b - 52) (- 1074)"
  define k where "k = nat (- p)"
  define m where "m = round_half_even (a * 2 ^ k) b"
  have "float_exponent a b < int n" by (rule float_exponent_less [OF a b lt])
  then have p: "p \<le> int n - 53" "p < 0" using n by (simp_all add: p_def)
  then have k: "53 \<le> k + n" "p = - int k" by (simp_all add: k_def)
  have an: "a \<noteq> 0" using a by simp
  have "round_to_double a b
      = (if 0 \<le> p then round_half_even a (b * 2 ^ nat p)
         else round_half_even (a * 2 ^ nat (- p)) b, p)"
    unfolding round_to_double_def Let_def p_def by (simp only: an if_False)
  also have "\<dots> = (m, - int k)"
    using p(2) by (simp add: m_def k_def)
  finally have rd: "round_to_double a b = (m, - int k)" .
  have m0: "0 \<le> m" unfolding m_def using a b by (intro round_half_even_nonneg) simp_all
  have val: "double_value (round_to_double a b) = real_of_int m / 2 ^ k"
    using p(2) k(2) by (simp add: rd double_value_def)
  have near: "\<bar>real_of_int m - real_of_int (a * 2 ^ k) / real_of_int b\<bar> \<le> 1 / 2"
    unfolding m_def by (rule round_half_even_near [OF b])
  have "real_of_int m / 2 ^ k - real_of_int a / real_of_int b
      = (real_of_int m - real_of_int (a * 2 ^ k) / real_of_int b) / 2 ^ k"
    by (simp add: field_simps)
  then have "\<bar>real_of_int m / 2 ^ k - real_of_int a / real_of_int b\<bar>
      = \<bar>real_of_int m - real_of_int (a * 2 ^ k) / real_of_int b\<bar> / 2 ^ k"
    by (simp only: abs_divide) simp
  also have "\<dots> \<le> (1 / 2) / 2 ^ k"
    using near by (intro divide_right_mono) simp_all
  also have "\<dots> \<le> 2 ^ n / 2 ^ 54"
  proof -
    have "(2::real) ^ 53 \<le> 2 ^ (k + n)" using k(1) by (intro power_increasing) simp_all
    then have "(2::real) ^ 54 \<le> 2 * (2 ^ k * 2 ^ n)" by (simp add: power_add)
    then show ?thesis by (simp add: field_simps)
  qed
  finally show ?thesis using rd m0 k(1) val by blast
qed

lemma percentage_near:
  assumes a: "0 \<le> a" and b: "0 < b" and le: "a \<le> b"
  shows "\<bar>double_value (float_mul (int_truediv a b) (100, 0))
           - real_of_int a / real_of_int b * 100\<bar> \<le> 1 / 2 ^ 45"
proof (cases "a = 0")
  case True
  have "float_mul (int_truediv 0 b) (100, 0) = (0, 0)"
    by (simp add: float_mul_def int_truediv_def round_to_double_def)
  then show ?thesis by (simp add: True double_value_def)
next
  case False
  with a have a0: "0 < a" by simp
  have lt: "a < b * 2 ^ 1" using le b by simp
  from round_to_double_near [OF a0 b lt]
  obtain m k where q: "round_to_double a b = (m, - int k)" "0 \<le> m" "53 \<le> k + 1"
    "\<bar>real_of_int m / 2 ^ k - real_of_int a / real_of_int b\<bar> \<le> 2 ^ 1 / 2 ^ 54"
    by auto
  define x where "x = real_of_int a / real_of_int b"
  define y where "y = real_of_int m / 2 ^ k"
  have x1: "0 \<le> x" "x \<le> 1" using a b le by (simp_all add: x_def)
  have qerr: "\<bar>y - x\<bar> \<le> 1 / 2 ^ 53" using q(4) by (simp add: x_def y_def)
  have k1: "1 \<le> k" using q(3) by simp
  have fm: "float_mul (int_truediv a b) (100, 0) = round_to_double (m * 100) (2 ^ k)"
    using k1 by (simp add: float_mul_def int_truediv_def q(1) Let_def)
  show ?thesis
  proof (cases "m = 0")
    case True
    have "float_mul (int_truediv a b) (100, 0) = (0, 0)"
      by (simp add: fm True round_to_double_def)
    then have "double_value (float_mul (int_truediv a b) (100, 0)) = 0"
      by (simp add: double_value_def)
    moreover have "y = 0" by (simp add: y_def True)
    ultimately show ?thesis using qerr x1 unfolding x_def [symmetric] by simp
  next
    case mz: False
    with q(2) have m0: "0 < m * 100" by simp
    have k0: "(0::int) < 2 ^ k" by simp
    have y2: "y \<le> 1 + 1 / 2 ^ 53" using qerr x1 by linarith
    have "real_of_int (m * 100) < real_of_int (2 ^ k * 2 ^ 7)"
    proof -
      have "y * 100 < 128" using y2 by simp
      then have "real_of_int m * 100 < 128 * 2 ^ k" by (simp add: y_def field_simps)
      then show ?thesis by simp
    qed
    then have lt2: "m * 100 < 2 ^ k * 2 ^ 7" by (simp only: of_int_less_iff)
    from round_to_double_near [OF m0 k0 lt2]
    obtain m' k' where r:
      "double_value (round_to_double (m * 100) (2 ^ k)) = real_of_int m' / 2 ^ k'"
      "\<bar>real_of_int m' / 2 ^ k' - real_of_int (m * 100) / real_of_int (2 ^ k)\<bar> \<le> 2 ^ 7 / 2 ^ 54"
      by auto
    define z where "z = double_value (float_mul (int_truediv a b) (100, 0))"
    have "\<bar>z - y * 100\<bar> \<le> 2 ^ 7 / 2 ^ 54"
      using r by (simp add: z_def fm y_def)
    then have zerr: "\<bar>z - y * 100\<bar> \<le> 1 / 2 ^ 47" by simp
    have t1: "\<bar>(z - y * 100) + (y - x) * 100\<bar> \<le> \<bar>z - y * 100\<bar> + \<bar>(y - x) * 100\<bar>"
      by (rule abs_triangle_ineq)
    have t2: "\<bar>(y - x) * 100\<bar> = \<bar>y - x\<bar> * 100" by (subst abs_mult) simp
    have t3: "(z - y * 100) + (y - x) * 100 = z - x * 100" by (simp add: algebra_simps)
    have "\<bar>z - x * 100\<bar> \<le> \<bar>z - y * 100\<bar> + \<bar>y - x\<bar> * 100"
      using t1 unfolding t2 t3 .
    also have "\<dots> \<le> 1 / 2 ^ 47 + 1 / 2 ^ 53 * 100"
      using zerr qerr by (intro add_mono mult_right_mono) simp_all
    also have "\<dots> \<le> 1 / 2 ^ 45" by simp
    finally show ?thesis by (simp add: z_def x_def)
  qed
qed

lemma perform_counters_nonneg: "counters_nonneg cb \<Longrightarrow> counters_nonneg (perform c cb)"
  by (cases c)
    (auto simp: counters_nonneg_def trip_def reset_def record_success_def Let_def)

lemma run_calls_counters_nonneg:
  "counters_nonneg (run_calls cs (CircuitBreaker_init threshold cooldown))"
proof -
  have "counters_nonneg cb \<Longrightarrow> counters_nonneg (fold perform cs cb)" for cb
    by (induction cs arbitrary: cb) (simp_all add: perform_counters_nonneg)
  moreover have "counters_nonneg (CircuitBreaker_init threshold cooldown)"
    by (simp add: counters_nonneg_def CircuitBreaker_init_def)
  ultimately show ?thesis by (simp add: run_calls_def)
qed

lemma hunt_prime_found_le_attempts:
  "int (length (primes_found h)) \<le> attempts h \<Longrightarrow>
     int (length (primes_found (snd (hunt_prime t0 t1 t2 r h))))
       \<le> attempts (snd (hunt_prime t0 t1 t2 r h))"
  by (auto simp: hunt_prime_def Let_def split: sum.splits bool.splits)

section \<open>Properties of the circuit breaker\<close>

text \<open>
  Claim C1. \<^verbatim>\<open>record_success\<close> is asymmetric. When \<^verbatim>\<open>allow\<close> is true (closed) it zeroes
  the streak and counts the success, and \<open>tripped_until\<close> stays as it was. When
  \<^verbatim>\<open>allow\<close> is false (open) it is \<^verbatim>\<open>reset\<close>: \<open>tripped_until\<close> becomes the closed
  sentinel 0, the streak is 0, the success is counted, and \<^verbatim>\<open>allow\<close> is true at every
  later clock reading \<open>t''\<close>, whatever cooldown remained. The sentinel 0 closes the
  circuit because clock readings are seconds since the epoch, \<open>0 < t''\<close>.
\<close>

theorem record_success_asymmetric:
  "(allow t cb \<longrightarrow>
      record_success t t' cb =
        cb\<lparr>consecutive_failures := 0, total_successes := total_successes cb + 1\<rparr>
      \<and> consecutive_failures (record_success t t' cb) = 0
      \<and> total_successes (record_success t t' cb) = total_successes cb + 1
      \<and> tripped_until (record_success t t' cb) = tripped_until cb)
   \<and> (\<not> allow t cb \<longrightarrow>
      record_success t t' cb = reset t' cb
      \<and> (0 < t'' \<longrightarrow> allow t'' (record_success t t' cb))
      \<and> tripped_until (record_success t t' cb) = 0
      \<and> consecutive_failures (record_success t t' cb) = 0
      \<and> total_successes (record_success t t' cb) = total_successes cb + 1)"
  by (simp add: record_success_def reset_def allow_def)

theorem record_success_asymmetric_witness:
  "allow 100 (CircuitBreaker_init 3 120)
   \<and> tripped_until (record_success 100 100 (CircuitBreaker_init 3 120)) = 0
   \<and> total_successes (record_success 100 100 (CircuitBreaker_init 3 120)) = 1
   \<and> \<not> allow 101 (trips [(100, 100), (100, 100), (100, 100)] (CircuitBreaker_init 3 120))
   \<and> tripped_until (trips [(100, 100), (100, 100), (100, 100)] (CircuitBreaker_init 3 120)) = 220
   \<and> allow 102 (record_success 101 101
        (trips [(100, 100), (100, 100), (100, 100)] (CircuitBreaker_init 3 120)))
   \<and> total_successes (record_success 101 101
        (trips [(100, 100), (100, 100), (100, 100)] (CircuitBreaker_init 3 120))) = 1"
  using record_success_asymmetric
    [of 101 "trips [(100, 100), (100, 100), (100, 100)] (CircuitBreaker_init 3 120)" 101 102]
    record_success_asymmetric [of 100 "CircuitBreaker_init 3 120" 100 100]
  by (simp add: trips_def trip_def allow_def record_success_def reset_def
      CircuitBreaker_init_def Let_def)










text \<open>
  Claim C5 says that the success rate equals
  \<open>total_successes / max 1 (total_successes + total_failures) * 100\<close> in every state.
  After 9 failures and 11 successes (threshold 20, so the circuit never opens) the exact
  value is 55, and \<^verbatim>\<open>get_stats\<close> reports the double next above it, which Python
  prints as 55.00000000000001.
\<close>

theorem get_stats_success_rate_counterexample:
  "stats_success_rate
     (get_stats 100 100
       (run_calls (replicate 9 (Call_trip 50 50) @ replicate 11 (Call_record_success 60 60))
         (CircuitBreaker_init 20 120)))
     = 55 + 1 / 2 ^ 47
   \<and> real_of_int 11 / real_of_int (max 1 (11 + 9)) * 100 = (55::real)"
proof -
  have st: "run_calls (replicate 9 (Call_trip 50 50) @ replicate 11 (Call_record_success 60 60))
      (CircuitBreaker_init 20 120)
    = \<lparr>failure_threshold = 20, cooldown_seconds = 120, tripped_until = 0,
       consecutive_failures = 0, total_failures = 9, total_successes = 11,
       last_failure_time = Some 50\<rparr>"
    by (simp add: run_calls_def eval_nat_numeral trip_def record_success_def allow_def
        CircuitBreaker_init_def Let_def)
  have "float_mul (int_truediv 11 (max 1 (11 + 9))) (100, 0) = (7740561859543041, - 47)"
    by code_simp
  then show ?thesis
    by (simp add: st get_stats_def Let_def double_value_def)
qed

text \<open>
  Claim C5, as the code has it. The success rate is the double-precision value of the
  expression: the double nearest to the quotient, times 100, rounded to a double again.
  As long as no counter is negative, and so in every state reached from a new breaker, it
  is within \<open>2 ^ (- 45)\<close> of the exact percentage. It is exactly 0 when nothing was
  recorded, 100 after one success and no failure, 50 after one success and one failure.
\<close>

theorem get_stats_success_rate_double:
  "stats_success_rate (get_stats t1 t2 cb)
      = double_value
          (float_mul
            (int_truediv (total_successes cb) (max 1 (total_successes cb + total_failures cb)))
            (100, 0))
   \<and> (0 \<le> total_successes cb \<and> 0 \<le> total_failures cb \<longrightarrow>
        \<bar>stats_success_rate (get_stats t1 t2 cb)
          - real_of_int (total_successes cb)
              / real_of_int (max 1 (total_successes cb + total_failures cb)) * 100\<bar>
          \<le> 1 / 2 ^ 45)
   \<and> \<bar>stats_success_rate
          (get_stats t1 t2 (run_calls cs (CircuitBreaker_init threshold cooldown)))
        - real_of_int (total_successes (run_calls cs (CircuitBreaker_init threshold cooldown)))
            / real_of_int
                (max 1
                  (total_successes (run_calls cs (CircuitBreaker_init threshold cooldown))
                   + total_failures (run_calls cs (CircuitBreaker_init threshold cooldown))))
            * 100\<bar>
        \<le> 1 / 2 ^ 45
   \<and> (total_successes cb = 0 \<and> total_failures cb = 0 \<longrightarrow>
        stats_success_rate (get_stats t1 t2 cb) = 0)
   \<and> (total_successes cb = 1 \<and> total_failures cb = 0 \<longrightarrow>
        stats_success_rate (get_stats t1 t2 cb) = 100)
   \<and> (total_successes cb = 1 \<and> total_failures cb = 1 \<longrightarrow>
        stats_success_rate (get_stats t1 t2 cb) = 50)"
proof -
  have rate: "stats_success_rate (get_stats t1 t2 c)
      = double_value
          (float_mul
            (int_truediv (total_successes c) (max 1 (total_successes c + total_failures c)))
            (100, 0))" for c
    by (simp add: get_stats_def Let_def)
  have near: "\<bar>stats_success_rate (get_stats t1 t2 c)
          - real_of_int (total_successes c)
              / real_of_int (max 1 (total_successes c + total_failures c)) * 100\<bar>
          \<le> 1 / 2 ^ 45"
    if "0 \<le> total_successes c" "0 \<le> total_failures c" for c
    unfolding rate using that by (intro percentage_near) simp_all
  have reached: "\<bar>stats_success_rate
          (get_stats t1 t2 (run_calls cs (CircuitBreaker_init threshold cooldown)))
        - real_of_int (total_successes (run_calls cs (CircuitBreaker_init threshold cooldown)))
            / real_of_int
                (max 1
                  (total_successes (run_calls cs (CircuitBreaker_init threshold cooldown))
                   + total_failures (run_calls cs (CircuitBreaker_init threshold cooldown))))
            * 100\<bar>
        \<le> 1 / 2 ^ 45"
    using run_calls_counters_nonneg [of cs threshold cooldown]
    by (intro near) (simp_all add: counters_nonneg_def)
  have v0: "float_mul (int_truediv 0 (max 1 (0 + 0))) (100, 0) = (0, 0)" by code_simp
  have v100: "float_mul (int_truediv 1 (max 1 (1 + 0))) (100, 0) = (7036874417766400, - 46)"
    by code_simp
  have v50: "float_mul (int_truediv 1 (max 1 (1 + 1))) (100, 0) = (7036874417766400, - 47)"
    by code_simp
  have r0: "stats_success_rate (get_stats t1 t2 cb) = 0"
    if "total_successes cb = 0 \<and> total_failures cb = 0"
    unfolding rate using that v0 by (simp add: double_value_def)
  have r100: "stats_success_rate (get_stats t1 t2 cb) = 100"
    if "total_successes cb = 1 \<and> total_failures cb = 0"
    unfolding rate using that v100 by (simp add: double_value_def)
  have r50: "stats_success_rate (get_stats t1 t2 cb) = 50"
    if "total_successes cb = 1 \<and> total_failures cb = 1"
    unfolding rate using that v50 by (simp add: double_value_def)
  show ?thesis
  proof (intro conjI impI)
    show "\<bar>stats_success_rate (get_stats t1 t2 cb)
          - real_of_int (total_successes cb)
              / real_of_int (max 1 (total_successes cb + total_failures cb)) * 100\<bar>
          \<le> 1 / 2 ^ 45"
      if "0 \<le> total_successes cb \<and> 0 \<le> total_failures cb"
      using that by (intro near) simp_all
  qed (rule rate reached r0 r100 r50; assumption?)+
qed

theorem get_stats_success_rate_double_witness:
  "stats_success_rate (get_stats 100 100 (CircuitBreaker_init 3 120)) = 0
   \<and> stats_success_rate
        (get_stats 102 102 (record_success 101 101 (CircuitBreaker_init 3 120))) = 100
   \<and> stats_success_rate
        (get_stats 104 104
          (trip 103 103 (record_success 101 101 (CircuitBreaker_init 3 120)))) = 50
   \<and> \<bar>stats_success_rate
          (get_stats 100 100
            \<lparr>failure_threshold = 20, cooldown_seconds = 120, tripped_until = 0,
             consecutive_failures = 0, total_failures = 9, total_successes = 11,
             last_failure_time = Some 50\<rparr>)
        - 55\<bar> \<le> 1 / 2 ^ 45"
proof -
  let ?c0 = "CircuitBreaker_init 3 120"
  let ?c1 = "record_success 101 101 (CircuitBreaker_init 3 120)"
  let ?c2 = "trip 103 103 (record_success 101 101 (CircuitBreaker_init 3 120))"
  let ?c3 = "\<lparr>failure_threshold = 20, cooldown_seconds = 120, tripped_until = 0,
             consecutive_failures = 0, total_failures = 9, total_successes = 11,
             last_failure_time = Some 50\<rparr>"
  have p0: "total_successes ?c0 = 0 \<and> total_failures ?c0 = 0"
    by (simp add: CircuitBreaker_init_def)
  have p1: "total_successes ?c1 = 1 \<and> total_failures ?c1 = 0"
    by (simp add: record_success_def reset_def CircuitBreaker_init_def)
  have p2: "total_successes ?c2 = 1 \<and> total_failures ?c2 = 1"
    by (simp add: trip_def record_success_def reset_def CircuitBreaker_init_def Let_def)
  have p3: "0 \<le> total_successes ?c3 \<and> 0 \<le> total_failures ?c3"
    by simp
  have r0: "stats_success_rate (get_stats 100 100 ?c0) = 0"
    by (rule get_stats_success_rate_double
        [THEN conjunct2, THEN conjunct2, THEN conjunct2, THEN conjunct1, THEN mp, OF p0])
  have r1: "stats_success_rate (get_stats 102 102 ?c1) = 100"
    by (rule get_stats_success_rate_double
        [THEN conjunct2, THEN conjunct2, THEN conjunct2, THEN conjunct2, THEN conjunct1,
         THEN mp, OF p1])
  have r2: "stats_success_rate (get_stats 104 104 ?c2) = 50"
    by (rule get_stats_success_rate_double
        [THEN conjunct2, THEN conjunct2, THEN conjunct2, THEN conjunct2, THEN conjunct2,
         THEN mp, OF p2])
  have "\<bar>stats_success_rate (get_stats 100 100 ?c3)
        - real_of_int (total_successes ?c3)
            / real_of_int (max 1 (total_successes ?c3 + total_failures ?c3)) * 100\<bar>
        \<le> 1 / 2 ^ 45"
    by (rule get_stats_success_rate_double [THEN conjunct2, THEN conjunct1, THEN mp, OF p3])
  moreover have "real_of_int (total_successes ?c3)
      / real_of_int (max 1 (total_successes ?c3 + total_failures ?c3)) * 100 = 55"
    by simp
  ultimately have r3: "\<bar>stats_success_rate (get_stats 100 100 ?c3) - 55\<bar> \<le> 1 / 2 ^ 45"
    by (simp only:)
  from r0 r1 r2 r3 show ?thesis by (intro conjI)
qed

lemma perform_streak_bounded: "streak_bounded cb \<Longrightarrow> streak_bounded (perform c cb)"
  by (cases c)
    (auto simp: streak_bounded_def trip_def reset_def record_success_def Let_def)

lemma run_calls_streak_bounded: "streak_bounded cb \<Longrightarrow> streak_bounded (run_calls cs cb)"
  unfolding run_calls_def
  by (induction cs arbitrary: cb) (simp_all add: perform_streak_bounded)

text \<open>
  Claim C6. In every state reached from a new breaker by any sequence of \<^verbatim>\<open>trip\<close>,
  \<^verbatim>\<open>reset\<close>, \<^verbatim>\<open>record_success\<close>, \<^verbatim>\<open>allow\<close> and \<^verbatim>\<open>get_stats\<close> calls, the streak
  \<open>consecutive_failures\<close> is at most \<open>total_failures\<close>.
\<close>

theorem consecutive_failures_le_total_failures:
  "consecutive_failures (run_calls cs (CircuitBreaker_init threshold cooldown))
     \<le> total_failures (run_calls cs (CircuitBreaker_init threshold cooldown))"
proof -
  have "streak_bounded (CircuitBreaker_init threshold cooldown)"
    by (simp add: streak_bounded_def CircuitBreaker_init_def)
  then have "streak_bounded (run_calls cs (CircuitBreaker_init threshold cooldown))"
    by (rule run_calls_streak_bounded)
  then show ?thesis
    by (simp add: streak_bounded_def)
qed

text \<open>
  Claim C10. \<^verbatim>\<open>reset\<close> leaves \<open>total_failures\<close> and \<open>last_failure_time\<close> as they are,
  and so does \<^verbatim>\<open>record_success\<close>, which is \<^verbatim>\<open>reset\<close> when the breaker is open.
\<close>

theorem reset_keeps_failure_history:
  "total_failures (reset t cb) = total_failures cb
   \<and> last_failure_time (reset t cb) = last_failure_time cb
   \<and> total_failures (record_success t t' cb) = total_failures cb
   \<and> last_failure_time (record_success t t' cb) = last_failure_time cb
   \<and> (\<not> allow t cb \<longrightarrow> record_success t t' cb = reset t' cb)"
  by (simp add: record_success_def reset_def)

theorem reset_keeps_failure_history_witness:
  "\<not> allow 101 (trips [(100, 100), (100, 100), (100, 100)] (CircuitBreaker_init 3 120))
   \<and> total_failures (record_success 101 101
        (trips [(100, 100), (100, 100), (100, 100)] (CircuitBreaker_init 3 120))) = 3
   \<and> last_failure_time (record_success 101 101
        (trips [(100, 100), (100, 100), (100, 100)] (CircuitBreaker_init 3 120))) = Some 100
   \<and> consecutive_failures (record_success 101 101
        (trips [(100, 100), (100, 100), (100, 100)] (CircuitBreaker_init 3 120))) = 0"
  using reset_keeps_failure_history
    [of 101 "trips [(100, 100), (100, 100), (100, 100)] (CircuitBreaker_init 3 120)" 101]
  by (simp add: trips_def trip_def allow_def record_success_def reset_def
      CircuitBreaker_init_def Let_def)

section \<open>The loop bound and trial division\<close>

lemma floor_sqrt_bounds:
  "0 \<le> n \<Longrightarrow>
     0 \<le> floor_sqrt n \<and> floor_sqrt n * floor_sqrt n \<le> n
     \<and> n < (floor_sqrt n + 1) * (floor_sqrt n + 1)"
proof (induction n rule: floor_sqrt.induct)
  case (1 n)
  show ?case
  proof (cases "n < 1")
    case True
    with "1.prems" have "n = 0" by simp
    then show ?thesis by (simp add: floor_sqrt.simps)
  next
    case False
    define q where "q = n div 4"
    define s where "s = floor_sqrt q"
    have q0: "0 \<le> q" using "1.prems" by (simp add: q_def)
    have IH: "0 \<le> s \<and> s * s \<le> q \<and> q < (s + 1) * (s + 1)"
      using "1.IH" [OF False] q0 by (simp add: q_def s_def)
    have qn: "4 * q \<le> n" "n < 4 * q + 4" by (simp_all add: q_def)
    have lo: "(2 * s) * (2 * s) \<le> n"
    proof -
      have "(2 * s) * (2 * s) = 4 * (s * s)" by simp
      with IH qn show ?thesis by linarith
    qed
    have hi: "n < (2 * s + 2) * (2 * s + 2)"
    proof -
      have "(2 * s + 2) * (2 * s + 2) = 4 * ((s + 1) * (s + 1))" by (simp add: algebra_simps)
      with IH qn show ?thesis by linarith
    qed
    have eq: "floor_sqrt n = (if (2 * s + 1) * (2 * s + 1) \<le> n then 2 * s + 1 else 2 * s)"
      using False by (subst floor_sqrt.simps) (simp add: Let_def q_def s_def)
    show ?thesis
    proof (cases "(2 * s + 1) * (2 * s + 1) \<le> n")
      case True
      with eq have "floor_sqrt n = 2 * s + 1" by simp
      with True hi IH show ?thesis by (simp add: algebra_simps)
    next
      case F: False
      with eq have "floor_sqrt n = 2 * s" by simp
      with F lo IH show ?thesis by (simp add: algebra_simps)
    qed
  qed
qed

lemma square_mono_int: "0 \<le> a \<Longrightarrow> a \<le> b \<Longrightarrow> a * a \<le> b * (b::int)"
  by (rule mult_mono) auto

lemma floor_sqrt_ge: "0 \<le> a \<Longrightarrow> a * a \<le> n \<Longrightarrow> a \<le> floor_sqrt n"
proof (rule ccontr)
  assume a: "0 \<le> a" "a * a \<le> n" and "\<not> a \<le> floor_sqrt n"
  then have le: "floor_sqrt n + 1 \<le> a" by simp
  have n0: "0 \<le> n" using a by (meson mult_nonneg_nonneg order_trans)
  from floor_sqrt_bounds [OF n0] have b: "0 \<le> floor_sqrt n + 1" "n < (floor_sqrt n + 1) * (floor_sqrt n + 1)"
    by simp_all
  from square_mono_int [OF b(1) le] b(2) a(2) show False by linarith
qed

lemma floor_sqrt_less: "0 \<le> n \<Longrightarrow> 0 \<le> a \<Longrightarrow> n < a * a \<Longrightarrow> floor_sqrt n < a"
proof (rule ccontr)
  assume a: "0 \<le> n" "0 \<le> a" "n < a * a" and "\<not> floor_sqrt n < a"
  then have le: "a \<le> floor_sqrt n" by simp
  from floor_sqrt_bounds [OF a(1)] have b: "floor_sqrt n * floor_sqrt n \<le> n" by simp
  from square_mono_int [OF a(2) le] b a(3) show False by linarith
qed

lemma is_prime_loop_iff:
  "is_prime_loop n i stop \<longleftrightarrow> (\<forall>j. i \<le> j \<and> j < stop \<and> even (j - i) \<longrightarrow> n mod j \<noteq> 0)"
proof (induction n i stop rule: is_prime_loop.induct)
  case (1 n i stop)
  show ?case
  proof (cases "i < stop")
    case False
    then show ?thesis by (subst is_prime_loop.simps) auto
  next
    case True
    show ?thesis
    proof (cases "n mod i = 0")
      case z: True
      have "is_prime_loop n i stop = False"
        using True z by (subst is_prime_loop.simps) simp
      moreover have "\<not> (\<forall>j. i \<le> j \<and> j < stop \<and> even (j - i) \<longrightarrow> n mod j \<noteq> 0)"
        using True z by (auto intro: exI [of _ i])
      ultimately show ?thesis by simp
    next
      case nz: False
      have step: "is_prime_loop n i stop = is_prime_loop n (i + 2) stop"
        using True nz by (subst is_prime_loop.simps) simp
      have "(\<forall>j. i + 2 \<le> j \<and> j < stop \<and> even (j - (i + 2)) \<longrightarrow> n mod j \<noteq> 0)
          \<longleftrightarrow> (\<forall>j. i \<le> j \<and> j < stop \<and> even (j - i) \<longrightarrow> n mod j \<noteq> 0)"
      proof (intro iffI allI impI)
        fix j assume h: "\<forall>j. i + 2 \<le> j \<and> j < stop \<and> even (j - (i + 2)) \<longrightarrow> n mod j \<noteq> 0"
          and j: "i \<le> j \<and> j < stop \<and> even (j - i)"
        show "n mod j \<noteq> 0"
        proof (cases "j = i")
          case True with nz show ?thesis by simp
        next
          case False
          with j have "j \<noteq> i + 1" by auto
          with False j have "i + 2 \<le> j" by linarith
          moreover from j have "even (j - (i + 2))" by simp
          moreover from j have "j < stop" by simp
          ultimately have "i + 2 \<le> j \<and> j < stop \<and> even (j - (i + 2))"
            by (simp only: simp_thms)
          with h [THEN spec, of j] show ?thesis by (rule mp)
        qed
      next
        fix j assume h: "\<forall>j. i \<le> j \<and> j < stop \<and> even (j - i) \<longrightarrow> n mod j \<noteq> 0"
          and j: "i + 2 \<le> j \<and> j < stop \<and> even (j - (i + 2))"
        from j have "i \<le> j \<and> j < stop \<and> even (j - i)" by simp
        with h [THEN spec, of j] show "n mod j \<noteq> 0" by (rule mp)
      qed
      with "1.IH" [OF True nz] step show ?thesis by (simp only:)
    qed
  qed
qed

lemma floor_sqrt_succ_less: "3 \<le> n \<Longrightarrow> floor_sqrt n + 1 < n"
proof -
  assume n: "3 \<le> n"
  have "3 * n \<le> n * n" using n by (intro mult_right_mono) auto
  moreover have "(n - 1) * (n - 1) = n * n - 2 * n + 1" by (simp add: algebra_simps)
  ultimately have "n < (n - 1) * (n - 1)" using n by linarith
  from floor_sqrt_less [OF _ _ this] n show ?thesis by simp
qed

lemma floor_sqrt_scaled:
  assumes "0 \<le> n"
  shows "floor_sqrt n * 2 ^ j \<le> floor_sqrt (n * 4 ^ j)
    \<and> floor_sqrt (n * 4 ^ j) < (floor_sqrt n + 1) * 2 ^ j"
proof -
  define s where "s = floor_sqrt n"
  have s: "0 \<le> s" "s * s \<le> n" "n < (s + 1) * (s + 1)"
    using floor_sqrt_bounds [OF assms] by (simp_all add: s_def)
  have four: "(4::int) ^ j = 2 ^ j * 2 ^ j"
    by (simp flip: power_mult_distrib)
  have z0: "0 \<le> n * 4 ^ j" using assms by simp
  have lo: "(s * 2 ^ j) * (s * 2 ^ j) \<le> n * 4 ^ j"
  proof -
    have "(s * 2 ^ j) * (s * 2 ^ j) = (s * s) * 4 ^ j" by (simp add: four)
    also have "\<dots> \<le> n * 4 ^ j" using s(2) by (intro mult_right_mono) auto
    finally show ?thesis .
  qed
  have hi: "n * 4 ^ j < ((s + 1) * 2 ^ j) * ((s + 1) * 2 ^ j)"
  proof -
    have "n * 4 ^ j < ((s + 1) * (s + 1)) * 4 ^ j"
      using s(3) by (intro mult_strict_right_mono) auto
    also have "\<dots> = ((s + 1) * 2 ^ j) * ((s + 1) * 2 ^ j)" by (simp add: four)
    finally show ?thesis .
  qed
  have "s * 2 ^ j \<le> floor_sqrt (n * 4 ^ j)"
    using s(1) by (intro floor_sqrt_ge [OF _ lo]) simp
  moreover have "floor_sqrt (n * 4 ^ j) < (s + 1) * 2 ^ j"
    using s(1) by (intro floor_sqrt_less [OF z0 _ hi]) simp
  ultimately show ?thesis by (simp add: s_def)
qed

lemma div_between:
  fixes a c m :: int
  assumes "0 < c" "a * c \<le> m" "m < (a + 1) * c"
  shows "m div c = a"
proof -
  have "m = c * a + (m - a * c)" by (simp add: algebra_simps)
  moreover have "0 \<le> m - a * c" "m - a * c < c" using assms by (simp_all add: algebra_simps)
  ultimately show ?thesis
    by (metis assms(1) div_pos_pos_trivial add.commute div_mult_self2 add_cancel_left_left less_irrefl)
qed

lemma bitlen_small:
  assumes "0 < n" "n < 2 ^ 53"
  shows "1 \<le> bitlen n \<and> bitlen n \<le> 53"
proof -
  have b: "2 ^ nat (bitlen n - 1) \<le> n" using bitlen_bounds [OF assms(1)] by simp
  have "1 \<le> bitlen n" using assms(1) bitlen_eq_zero_iff [of n] bitlen_nonneg [of n] by linarith
  moreover have "bitlen n \<le> 53"
  proof (rule ccontr)
    assume "\<not> bitlen n \<le> 53"
    then have "53 \<le> nat (bitlen n - 1)" by simp
    then have "(2::int) ^ 53 \<le> 2 ^ nat (bitlen n - 1)" by (intro power_increasing) auto
    with b assms(2) show False by linarith
  qed
  ultimately show ?thesis by simp
qed

lemma py_float_exact:
  assumes "0 < n" "n < 2 ^ 53"
  shows "py_float n = Inr n"
proof -
  have "bitlen n \<le> 53" using bitlen_small [OF assms] by simp
  moreover have "\<not> (2::int) ^ 1024 \<le> n"
  proof -
    have "(2::int) ^ 53 \<le> 2 ^ 1024" by (intro power_increasing) auto
    with assms(2) show ?thesis by linarith
  qed
  ultimately show ?thesis by (simp add: py_float_def Let_def)
qed

lemma int_of_sqrt_double:
  assumes "0 < n" "n < 2 ^ 53"
  shows "floor_sqrt n \<le> int_of_double (sqrt_double n)
    \<and> int_of_double (sqrt_double n) \<le> floor_sqrt n + 1"
proof -
  define e where "e = (bitlen n - 1) div 2 - 52"
  define j where "j = nat (- e)"
  define m0 where "m0 = floor_sqrt (n * 4 ^ j)"
  define s where "s = floor_sqrt n"
  have e: "e < 0" using bitlen_small [OF assms] unfolding e_def by presburger
  have c: "(0::int) < 2 ^ j" by simp
  have m0: "s * 2 ^ j \<le> m0" "m0 < (s + 1) * 2 ^ j"
    using floor_sqrt_scaled [of n j] assms(1) by (simp_all add: m0_def s_def)
  have d0: "m0 div 2 ^ j = s" by (rule div_between [OF c m0])
  have d1: "s \<le> (m0 + 1) div 2 ^ j \<and> (m0 + 1) div 2 ^ j \<le> s + 1"
  proof (cases "m0 + 1 < (s + 1) * 2 ^ j")
    case True
    have "(m0 + 1) div 2 ^ j = s" using m0(1) by (intro div_between [OF c _ True]) simp
    then show ?thesis by simp
  next
    case False
    with m0(2) have "m0 + 1 = (s + 1) * 2 ^ j" by simp
    then have "(m0 + 1) div 2 ^ j = s + 1" by simp
    then show ?thesis by simp
  qed
  have "sqrt_double n = (if n * 4 ^ j > m0 * m0 + m0 then m0 + 1 else m0, e)"
    using e by (simp add: sqrt_double_def Let_def e_def j_def m0_def)
  then have "int_of_double (sqrt_double n)
      = (if n * 4 ^ j > m0 * m0 + m0 then m0 + 1 else m0) div 2 ^ j"
    using e by (simp add: int_of_double_def j_def)
  with d0 d1 show ?thesis by (simp add: s_def)
qed

text \<open>
  The rounding of \<open>sqrt_double\<close> on arguments below \<open>2 ^ 106\<close>: the significand \<open>m\<close> is
  within one half of the exact root of \<open>x * 4 ^ nat (- e)\<close>.
\<close>

lemma sqrt_double_nearest:
  assumes "0 < x" "bitlen x \<le> 106"
  shows "case sqrt_double x of (m, e) \<Rightarrow>
           e \<le> 0
           \<and> (2 * m - 1) * (2 * m - 1) \<le> 4 * (x * 4 ^ nat (- e))
           \<and> 4 * (x * 4 ^ nat (- e)) \<le> (2 * m + 1) * (2 * m + 1)"
proof -
  define e where "e = (bitlen x - 1) div 2 - 52"
  define z where "z = x * 4 ^ nat (- e)"
  define m0 where "m0 = floor_sqrt z"
  have e: "e \<le> 0" using assms(2) unfolding e_def by presburger
  have z1: "1 \<le> z"
  proof -
    have "1 * 1 \<le> x * 4 ^ nat (- e)" using assms(1) by (intro mult_mono) auto
    then show ?thesis by (simp add: z_def)
  qed
  have m0: "0 \<le> m0" "m0 * m0 \<le> z" "z < (m0 + 1) * (m0 + 1)"
    using floor_sqrt_bounds [of z] z1 by (simp_all add: m0_def)
  have sq: "sqrt_double x = (if z > m0 * m0 + m0 then m0 + 1 else m0, e)"
    using e by (simp add: sqrt_double_def Let_def e_def z_def m0_def)
  show ?thesis
  proof (cases "z > m0 * m0 + m0")
    case True
    have "(2 * (m0 + 1) - 1) * (2 * (m0 + 1) - 1) = 4 * (m0 * m0 + m0) + 1"
      by (simp add: algebra_simps)
    moreover have "(2 * (m0 + 1) + 1) * (2 * (m0 + 1) + 1) = 4 * ((m0 + 1) * (m0 + 1)) + 4 * m0 + 5"
      by (simp add: algebra_simps)
    ultimately show ?thesis
      using True m0 e by (simp add: sq z_def [symmetric])
  next
    case False
    have "(2 * m0 - 1) * (2 * m0 - 1) = 4 * (m0 * m0) - 4 * m0 + 1"
      by (simp add: algebra_simps)
    moreover have "(2 * m0 + 1) * (2 * m0 + 1) = 4 * (m0 * m0 + m0) + 1"
      by (simp add: algebra_simps)
    moreover have "4 * (m0 * m0) - 4 * m0 + 1 \<le> 4 * z"
    proof (cases "m0 = 0")
      case True
      with z1 show ?thesis by simp
    next
      case F: False
      with m0(1) have "1 \<le> m0" by simp
      with m0(2) show ?thesis by linarith
    qed
    ultimately show ?thesis
      using False m0 e by (simp add: sq z_def [symmetric])
  qed
qed

lemma py_float_overflow:
  assumes "2 ^ 1024 \<le> n"
  shows "py_float n = Inl OverflowError"
proof -
  define b where "b = bitlen n"
  define sh where "sh = nat (b - 53)"
  define q where "q = n div 2 ^ sh"
  have n0: "0 < n" using assms by (smt (verit) zero_less_power)
  have bb: "2 ^ nat (b - 1) \<le> n" "n < 2 ^ nat b"
    using bitlen_bounds [OF n0] by (simp_all add: b_def)
  have "(2::int) ^ 1024 < 2 ^ nat b" using assms bb(2) by linarith
  have "1024 < nat b"
  proof (rule ccontr)
    assume "\<not> 1024 < nat b"
    then have "(2::int) ^ nat b \<le> 2 ^ 1024" by (intro power_increasing) auto
    with \<open>(2::int) ^ 1024 < 2 ^ nat b\<close> show False by linarith
  qed
  then have b: "1025 \<le> b" by linarith
  then have split: "nat (b - 1) = 52 + sh" by (simp add: sh_def)
  have q: "2 ^ 52 \<le> q"
  proof -
    have "(2::int) ^ (52 + sh) div 2 ^ sh \<le> n div 2 ^ sh"
      using bb(1) by (intro zdiv_mono1) (simp_all add: split)
    then show ?thesis by (simp add: q_def power_add)
  qed
  have big: "(2::int) ^ 1024 \<le> 2 ^ (52 + sh)"
    using b by (intro power_increasing) (simp_all add: sh_def)
  have x: "2 ^ 1024 \<le> q' * 2 ^ sh" if "q \<le> q'" for q'
  proof -
    have "(2::int) ^ (52 + sh) = 2 ^ 52 * 2 ^ sh" by (simp add: power_add)
    also have "\<dots> \<le> q' * 2 ^ sh" using q that by (intro mult_right_mono) auto
    finally show ?thesis using big by linarith
  qed
  have "\<not> b \<le> 53" using b by simp
  then show ?thesis
    using x [of q] x [of "q + 1"]
    by (simp add: py_float_def Let_def flip: b_def sh_def q_def)
qed

lemma prime_number_less_2: "n < 2 \<Longrightarrow> \<not> prime_number n"
  by (simp add: prime_number_def)

lemma prime_number_2: "prime_number 2"
proof -
  have "d = 1 \<or> d = 2" if "0 < d" "d dvd 2" for d :: int
  proof -
    from that have "d \<le> 2" by (intro zdvd_imp_le) auto
    with that(1) show ?thesis by linarith
  qed
  then show ?thesis by (simp add: prime_number_def)
qed

lemma prime_number_even: "2 < n \<Longrightarrow> even n \<Longrightarrow> \<not> prime_number n"
proof
  assume n: "2 < n" "even n" and p: "prime_number n"
  from p have "\<forall>d. 0 < d \<and> d dvd n \<longrightarrow> d = 1 \<or> d = n" by (simp add: prime_number_def)
  from this [THEN spec, of 2] n show False by simp
qed

lemma odd_ge_3: "odd (d::int) \<Longrightarrow> 0 < d \<Longrightarrow> d \<noteq> 1 \<Longrightarrow> 3 \<le> d"
proof -
  assume d: "odd d" "0 < d" "d \<noteq> 1"
  then have "d \<noteq> 2" by auto
  with d show ?thesis by linarith
qed

lemma odd_trial_division:
  assumes n: "odd n" "3 \<le> n" and r: "floor_sqrt n \<le> r" "r < n"
  shows "(\<forall>j. 3 \<le> j \<and> j \<le> r \<and> odd j \<longrightarrow> n mod j \<noteq> 0) \<longleftrightarrow> prime_number n"
proof
  assume p: "prime_number n"
  show "\<forall>j. 3 \<le> j \<and> j \<le> r \<and> odd j \<longrightarrow> n mod j \<noteq> 0"
  proof (intro allI impI notI)
    fix j assume j: "3 \<le> j \<and> j \<le> r \<and> odd j" and m: "n mod j = 0"
    from m have "j dvd n" by (simp add: dvd_eq_mod_eq_0)
    moreover from j have "0 < j" by simp
    moreover from p have "\<forall>d. 0 < d \<and> d dvd n \<longrightarrow> d = 1 \<or> d = n"
      by (simp add: prime_number_def)
    ultimately have "j = 1 \<or> j = n" by (simp only:)
    with j r(2) show False by linarith
  qed
next
  assume a: "\<forall>j. 3 \<le> j \<and> j \<le> r \<and> odd j \<longrightarrow> n mod j \<noteq> 0"
  define s where "s = floor_sqrt n"
  have s: "n < (s + 1) * (s + 1)" "0 \<le> s"
    using floor_sqrt_bounds [of n] n(2) by (simp_all add: s_def)
  have none: False if d: "3 \<le> d" "d \<le> s" "odd d" "d dvd n" for d
  proof -
    from d r(1) have "3 \<le> d \<and> d \<le> r \<and> odd d" by (simp add: s_def)
    with a [THEN spec, of d] have "n mod d \<noteq> 0" by (rule mp)
    with d(4) show False by (simp add: dvd_eq_mod_eq_0)
  qed
  have "d = 1 \<or> d = n" if d: "0 < d" "d dvd n" for d
  proof (rule ccontr)
    assume neg: "\<not> (d = 1 \<or> d = n)"
    from d(2) obtain c where c: "n = d * c" by (auto simp: dvd_def)
    have c0: "0 < c"
    proof (rule ccontr)
      assume "\<not> 0 < c"
      then have "d * c \<le> 0" using d(1) by (simp add: mult_le_0_iff)
      with c n(2) show False by linarith
    qed
    have c1: "c \<noteq> 1" using neg c by auto
    have oddd: "odd d" "odd c" using n(1) c by auto
    have d3: "3 \<le> d" using oddd(1) d(1) neg by (intro odd_ge_3) auto
    have c3: "3 \<le> c" using oddd(2) c0 c1 by (intro odd_ge_3) auto
    have cd: "c dvd n" using c by simp
    show False
    proof (cases "d \<le> s")
      case True
      from none [OF d3 True oddd(1) d(2)] show False .
    next
      case False
      show False
      proof (cases "c \<le> s")
        case True
        from none [OF c3 True oddd(2) cd] show False .
      next
        case cf: False
        have "(s + 1) * (s + 1) \<le> d * c"
          using False cf s(2) by (intro mult_mono) auto
        with s(1) c show False by linarith
      qed
    qed
  qed
  with n(2) show "prime_number n" by (simp add: prime_number_def)
qed

lemma is_prime_loop_odd:
  "is_prime_loop n 3 (r + 1) \<longleftrightarrow> (\<forall>j. 3 \<le> j \<and> j \<le> r \<and> odd j \<longrightarrow> n mod j \<noteq> 0)"
  by (simp add: is_prime_loop_iff)

lemma is_prime_odd_small:
  assumes "2 < n" "odd n" "n < 2 ^ 53"
  shows "is_prime n = Inr (prime_number n)"
proof -
  define r where "r = int_of_double (sqrt_double n)"
  have n3: "3 \<le> n" using assms(1) by simp
  have n0: "0 < n" using assms(1) by simp
  have r: "floor_sqrt n \<le> r" "r < n"
    using int_of_sqrt_double [OF n0 assms(3)] floor_sqrt_succ_less [OF n3]
    by (simp_all add: r_def)
  have "math_sqrt n = Inr (sqrt_double n)"
    using n0 py_float_exact [OF n0 assms(3)] by (simp add: math_sqrt_def)
  then have "is_prime n = Inr (is_prime_loop n 3 (r + 1))"
    using assms(1,2) by (simp add: is_prime_def r_def odd_iff_mod_2_eq_one)
  then show ?thesis
    by (simp only: is_prime_loop_odd odd_trial_division [OF assms(2) n3 r])
qed

lemma prime_number_odd_divisors:
  assumes "2 < n" "odd n"
  shows "prime_number n \<longleftrightarrow> \<not> (\<exists>d. odd d \<and> 3 \<le> d \<and> d \<le> floor_sqrt n \<and> d dvd n)"
proof -
  have n3: "3 \<le> n" using assms(1) by simp
  have "floor_sqrt n < n" using floor_sqrt_succ_less [OF n3] by simp
  from odd_trial_division [OF assms(2) n3 order_refl this, symmetric]
  show ?thesis by (auto simp: dvd_eq_mod_eq_0)
qed

lemma is_prime_overflow:
  assumes "2 ^ 1024 \<le> n" "odd n"
  shows "is_prime n = Inl OverflowError"
proof -
  have "(2::int) ^ 2 \<le> 2 ^ 1024" by (intro power_increasing) auto
  with assms(1) have n: "4 \<le> n" by simp
  have "math_sqrt n = Inl OverflowError"
    using n py_float_overflow [OF assms(1)] by (simp add: math_sqrt_def)
  then show ?thesis
    using n assms(2) by (simp add: is_prime_def odd_iff_mod_2_eq_one)
qed

section \<open>Properties of the primality test\<close>

text \<open>
  Claim C4. \<^verbatim>\<open>is_prime\<close> is to decide primality for every integer: false below 2, true
  on 2, false on the even numbers above 2, and on an odd \<open>n\<close> above 2 false exactly when
  an odd \<open>d\<close> with \<open>3 \<le> d \<le> floor_sqrt n\<close> divides \<open>n\<close>. The code does not do so on every
  integer: on the odd number \<open>2 ^ 1024 + 1\<close> the conversion to a double inside
  \<^verbatim>\<open>math.sqrt\<close> overflows and the call raises \<^verbatim>\<open>OverflowError\<close>, returning neither
  true nor false.
\<close>

theorem is_prime_raises_at_2_1024_plus_1:
  "is_prime (2 ^ 1024 + 1) = Inl OverflowError"
  by code_simp

text \<open>
  Where the conversion to a double is exact, below \<open>2 ^ 53\<close>, the code decides
  primality. \<^verbatim>\<open>is_prime n\<close> is false for every \<open>n < 2\<close>, true for 2 and false for every
  even \<open>n > 2\<close>. For odd \<open>n > 2\<close> below \<open>2 ^ 53\<close> it is false exactly when some odd \<open>d\<close>
  with \<open>3 \<le> d \<le> floor_sqrt n\<close> divides \<open>n\<close>, and so it is true exactly when \<open>n\<close> is a
  prime number. It is false on 4, 6, 8, 9, 10 and true on 11. On every odd \<open>n\<close> from
  \<open>2 ^ 1024\<close> on, the call raises \<^verbatim>\<open>OverflowError\<close>.
\<close>

theorem is_prime_correct_below_2_53:
  "(n < 2 \<longrightarrow> is_prime n = Inr False)
   \<and> is_prime 2 = Inr True
   \<and> (2 < n \<and> even n \<longrightarrow> is_prime n = Inr False)
   \<and> (2 < n \<and> odd n \<and> n < 2 ^ 53 \<longrightarrow>
        is_prime n = Inr (\<not> (\<exists>d. odd d \<and> 3 \<le> d \<and> d \<le> floor_sqrt n \<and> d dvd n)))
   \<and> (n < 2 ^ 53 \<longrightarrow> is_prime n = Inr (prime_number n))
   \<and> is_prime 4 = Inr False \<and> is_prime 6 = Inr False \<and> is_prime 8 = Inr False
   \<and> is_prime 9 = Inr False \<and> is_prime 10 = Inr False \<and> is_prime 11 = Inr True
   \<and> (2 ^ 1024 \<le> n \<and> odd n \<longrightarrow> is_prime n = Inl OverflowError)"
proof -
  have low: "is_prime n = Inr False" if "n < 2"
    using that by (simp add: is_prime_def)
  have two: "is_prime 2 = Inr True"
    by (simp add: is_prime_def)
  have evn: "is_prime n = Inr False" if "2 < n" "even n"
    using that by (simp add: is_prime_def)
  have odd_small: "is_prime n = Inr (prime_number n)" if "2 < n" "odd n" "n < 2 ^ 53"
    using that by (rule is_prime_odd_small)
  have divisors: "is_prime n
      = Inr (\<not> (\<exists>d. odd d \<and> 3 \<le> d \<and> d \<le> floor_sqrt n \<and> d dvd n))"
    if "2 < n" "odd n" "n < 2 ^ 53"
    using odd_small [OF that] prime_number_odd_divisors [OF that(1,2)] by (simp only:)
  have all_small: "is_prime n = Inr (prime_number n)" if small: "n < 2 ^ 53"
  proof (cases "n < 2")
    case True
    with low prime_number_less_2 show ?thesis by simp
  next
    case False
    show ?thesis
    proof (cases "n = 2")
      case True
      with two prime_number_2 show ?thesis by simp
    next
      case ne: False
      with False have gt: "2 < n" by simp
      show ?thesis
      proof (cases "even n")
        case True
        with evn [OF gt] prime_number_even [OF gt] show ?thesis by simp
      next
        case False
        with odd_small [OF gt _ small] show ?thesis by simp
      qed
    qed
  qed
  have e4: "is_prime 4 = Inr False" by (simp add: is_prime_def)
  have e6: "is_prime 6 = Inr False" by (simp add: is_prime_def)
  have e8: "is_prime 8 = Inr False" by (simp add: is_prime_def)
  have e9: "is_prime 9 = Inr False" by code_simp
  have e10: "is_prime 10 = Inr False" by (simp add: is_prime_def)
  have e11: "is_prime 11 = Inr True" by code_simp
  have over: "is_prime n = Inl OverflowError" if "2 ^ 1024 \<le> n" "odd n"
    using that by (rule is_prime_overflow)
  show ?thesis
  proof (intro conjI impI)
    show "is_prime n = Inr False" if "n < 2"
      using that by (rule low)
    show "is_prime n = Inr False" if "2 < n \<and> even n"
      using that by (intro evn) simp_all
    show "is_prime n
        = Inr (\<not> (\<exists>d. odd d \<and> 3 \<le> d \<and> d \<le> floor_sqrt n \<and> d dvd n))"
      if "2 < n \<and> odd n \<and> n < 2 ^ 53"
      using that by (intro divisors) simp_all
    show "is_prime n = Inr (prime_number n)" if "n < 2 ^ 53"
      using that by (rule all_small)
    show "is_prime n = Inl OverflowError" if "2 ^ 1024 \<le> n \<and> odd n"
      using that by (intro over) simp_all
  qed (rule two e4 e6 e8 e9 e10 e11)+
qed

theorem is_prime_correct_below_2_53_witness:
  "is_prime (- 7) = Inr False
   \<and> is_prime 1000 = Inr False
   \<and> (25::int) < 2 ^ 53 \<and> odd (25::int)
   \<and> is_prime 25 = Inr False \<and> floor_sqrt 25 = 5 \<and> (5::int) dvd 25
   \<and> is_prime 13 = Inr True \<and> prime_number 13
   \<and> (2::int) ^ 1024 \<le> 2 ^ 1024 + 3 \<and> odd ((2::int) ^ 1024 + 3)
   \<and> is_prime (2 ^ 1024 + 3) = Inl OverflowError"
proof -
  have p13: "is_prime 13 = Inr True" by code_simp
  have p25: "is_prime 25 = Inr False" by code_simp
  have s25: "floor_sqrt 25 = 5" by code_simp
  have b13: "(13::int) < 2 ^ 53" by simp
  from is_prime_correct_below_2_53 [of 13] b13 p13 have "prime_number 13" by simp
  moreover from is_prime_correct_below_2_53 [of "- 7"] have "is_prime (- 7) = Inr False" by simp
  moreover from is_prime_correct_below_2_53 [of 1000] have "is_prime 1000 = Inr False" by simp
  moreover from is_prime_correct_below_2_53 [of "2 ^ 1024 + 3"]
  have "is_prime (2 ^ 1024 + 3) = Inl OverflowError" by simp
  ultimately show ?thesis using p13 p25 s25 by simp
qed

section \<open>Summary helpers\<close>

lemma max_list_Max: "max_list xs = (if xs = [] then None else Some (Max (set xs)))"
proof (cases xs)
  case Nil
  then show ?thesis by simp
next
  case (Cons x ys)
  have "fold max ys x = Max (set (x # ys))" by (rule Max.set_eq_fold [symmetric])
  with Cons show ?thesis by simp
qed

lemma length_last5: "length (last5 xs) = min 5 (length xs)"
  by (simp add: last5_def)

lemma sorted_reverse_descending:
  "sorted (rev (sorted_reverse xs)) \<and> mset (sorted_reverse xs) = mset xs"
  by (simp add: sorted_reverse_def)

section \<open>Properties of the prime hunter\<close>

text \<open>
  Claim C7. When the breaker disallows the operation, \<^verbatim>\<open>hunt_prime\<close> (the
  specification's \<^verbatim>\<open>hunt_once\<close>) returns false and
  leaves the whole hunter as it was: the attempt counter, the list of primes found and
  the breaker with all its counters.
\<close>

theorem hunt_prime_blocked:
  "\<not> allow t0 (circuit_breaker h) \<Longrightarrow> hunt_prime t0 t1 t2 r h = (Inr False, h)"
  by (simp add: hunt_prime_def)

theorem hunt_prime_blocked_witness:
  "\<not> allow 101
        (circuit_breaker
          \<lparr>circuit_breaker = trips [(100, 100), (100, 100), (100, 100)] (CircuitBreaker_init 3 120),
           min_num = 5, max_num = 1000000, primes_found = [7], attempts = 4\<rparr>)
   \<and> hunt_prime 101 101 101 0
        \<lparr>circuit_breaker = trips [(100, 100), (100, 100), (100, 100)] (CircuitBreaker_init 3 120),
         min_num = 5, max_num = 1000000, primes_found = [7], attempts = 4\<rparr>
      = (Inr False,
         \<lparr>circuit_breaker = trips [(100, 100), (100, 100), (100, 100)] (CircuitBreaker_init 3 120),
          min_num = 5, max_num = 1000000, primes_found = [7], attempts = 4\<rparr>)"
  using hunt_prime_blocked
    [of 101 "\<lparr>circuit_breaker = trips [(100, 100), (100, 100), (100, 100)] (CircuitBreaker_init 3 120),
           min_num = 5, max_num = 1000000, primes_found = [7], attempts = 4\<rparr>" 101 101 0]
  by (simp add: trips_def trip_def allow_def CircuitBreaker_init_def Let_def)

text \<open>
  Claim C8 says that the hit rate is \<open>found / max 1 attempts * 100\<close>. With 7 primes found
  in 25 attempts (18 failures and then 7 successes, threshold 30) the exact value is 28,
  and \<^verbatim>\<open>get_summary\<close> reports the double next above it, which Python prints as
  28.000000000000004.
\<close>

theorem get_summary_hit_rate_counterexample:
  "sum_prime_hit_rate
     (get_summary 100 100
       \<lparr>circuit_breaker =
          \<lparr>failure_threshold = 30, cooldown_seconds = 120, tripped_until = 0,
           consecutive_failures = 0, total_failures = 18, total_successes = 7,
           last_failure_time = Some 50\<rparr>,
        min_num = 5, max_num = 1000000,
        primes_found = [5, 7, 11, 13, 17, 19, 23], attempts = 25\<rparr>)
     = 28 + 1 / 2 ^ 48
   \<and> real 7 / real_of_int (max 1 25) * 100 = (28::real)"
proof -
  have "float_mul (int_truediv 7 (max 1 25)) (100, 0) = (7881299347898369, - 48)"
    by code_simp
  then show ?thesis
    by (simp add: get_summary_def Let_def double_value_def)
qed

text \<open>
  Claim C8, as the code has it. For every hunter, \<^verbatim>\<open>get_summary\<close> returns the attempt
  count, the number of primes found, the largest prime found (\<open>None\<close> when there is
  none), the hit rate, the statistics of the breaker, and the last five primes found (all
  of them when there are fewer) in descending order of value. The hit rate is the
  double-precision value of \<open>found / max 1 attempts * 100\<close>: the double nearest to the
  quotient, times 100, rounded again; when the primes found are not more than the
  attempts, as in every state that \<^verbatim>\<open>hunt_prime\<close> reaches, it is within \<open>2 ^ (- 45)\<close> of
  the exact percentage. The method assigns no attribute: its model returns the summary
  only, and the hunter is the same before and after.
\<close>

theorem get_summary_contents:
  "sum_attempts (get_summary t1 t2 h) = attempts h
   \<and> sum_primes_found (get_summary t1 t2 h) = length (primes_found h)
   \<and> sum_largest_prime (get_summary t1 t2 h)
       = (if primes_found h = [] then None else Some (Max (set (primes_found h))))
   \<and> sum_prime_hit_rate (get_summary t1 t2 h)
       = double_value
           (float_mul
             (int_truediv (int (length (primes_found h))) (max 1 (attempts h)))
             (100, 0))
   \<and> (int (length (primes_found h)) \<le> attempts h \<longrightarrow>
        \<bar>sum_prime_hit_rate (get_summary t1 t2 h)
          - real (length (primes_found h)) / real_of_int (max 1 (attempts h)) * 100\<bar>
          \<le> 1 / 2 ^ 45)
   \<and> sum_circuit_breaker (get_summary t1 t2 h) = get_stats t1 t2 (circuit_breaker h)
   \<and> length (sum_recent_primes (get_summary t1 t2 h)) = min 5 (length (primes_found h))
   \<and> mset (sum_recent_primes (get_summary t1 t2 h))
       = mset (drop (length (primes_found h) - 5) (primes_found h))
   \<and> sorted (rev (sum_recent_primes (get_summary t1 t2 h)))"
proof -
  have recent: "sum_recent_primes (get_summary t1 t2 h) = sorted_reverse (last5 (primes_found h))"
    by (simp add: get_summary_def Let_def)
  have rate: "sum_prime_hit_rate (get_summary t1 t2 h)
       = double_value
           (float_mul
             (int_truediv (int (length (primes_found h))) (max 1 (attempts h)))
             (100, 0))"
    by (simp add: get_summary_def Let_def)
  have near: "\<bar>sum_prime_hit_rate (get_summary t1 t2 h)
          - real (length (primes_found h)) / real_of_int (max 1 (attempts h)) * 100\<bar>
          \<le> 1 / 2 ^ 45"
    if "int (length (primes_found h)) \<le> attempts h"
  proof -
    have "\<bar>double_value
            (float_mul
              (int_truediv (int (length (primes_found h))) (max 1 (attempts h)))
              (100, 0))
          - real_of_int (int (length (primes_found h)))
              / real_of_int (max 1 (attempts h)) * 100\<bar> \<le> 1 / 2 ^ 45"
      using that by (intro percentage_near) simp_all
    then show ?thesis by (simp add: rate)
  qed
  have len: "length (sorted_reverse (last5 (primes_found h))) = min 5 (length (primes_found h))"
    by (simp add: sorted_reverse_def length_last5)
  have perm: "mset (sorted_reverse (last5 (primes_found h)))
      = mset (drop (length (primes_found h) - 5) (primes_found h))"
    by (simp add: sorted_reverse_descending last5_def)
  have desc: "sorted (rev (sorted_reverse (last5 (primes_found h))))"
    by (simp add: sorted_reverse_descending)
  have a: "sum_attempts (get_summary t1 t2 h) = attempts h"
    by (simp add: get_summary_def Let_def)
  have f: "sum_primes_found (get_summary t1 t2 h) = length (primes_found h)"
    by (simp add: get_summary_def Let_def)
  have l: "sum_largest_prime (get_summary t1 t2 h)
       = (if primes_found h = [] then None else Some (Max (set (primes_found h))))"
    by (simp add: get_summary_def Let_def max_list_Max)
  have c: "sum_circuit_breaker (get_summary t1 t2 h) = get_stats t1 t2 (circuit_breaker h)"
    by (simp add: get_summary_def Let_def)
  show ?thesis
    unfolding recent
  proof (intro conjI impI)
    show "\<bar>sum_prime_hit_rate (get_summary t1 t2 h)
          - real (length (primes_found h)) / real_of_int (max 1 (attempts h)) * 100\<bar>
          \<le> 1 / 2 ^ 45"
      if "int (length (primes_found h)) \<le> attempts h"
      using that by (rule near)
  qed (rule a f l rate c len perm desc)+
qed

theorem get_summary_contents_witness:
  "sum_attempts (get_summary 100 100
      \<lparr>circuit_breaker = CircuitBreaker_init 3 120, min_num = 5, max_num = 1000000,
       primes_found = [7, 5, 11, 13, 17, 3, 19], attempts = 10\<rparr>) = 10
   \<and> sum_primes_found (get_summary 100 100
      \<lparr>circuit_breaker = CircuitBreaker_init 3 120, min_num = 5, max_num = 1000000,
       primes_found = [7, 5, 11, 13, 17, 3, 19], attempts = 10\<rparr>) = 7
   \<and> sum_largest_prime (get_summary 100 100
      \<lparr>circuit_breaker = CircuitBreaker_init 3 120, min_num = 5, max_num = 1000000,
       primes_found = [7, 5, 11, 13, 17, 3, 19], attempts = 10\<rparr>) = Some 19
   \<and> \<bar>sum_prime_hit_rate (get_summary 100 100
      \<lparr>circuit_breaker = CircuitBreaker_init 3 120, min_num = 5, max_num = 1000000,
       primes_found = [7, 5, 11, 13, 17, 3, 19], attempts = 10\<rparr>) - 70\<bar> \<le> 1 / 2 ^ 45
   \<and> sum_recent_primes (get_summary 100 100
      \<lparr>circuit_breaker = CircuitBreaker_init 3 120, min_num = 5, max_num = 1000000,
       primes_found = [7, 5, 11, 13, 17, 3, 19], attempts = 10\<rparr>) = [19, 17, 13, 11, 3]"
proof -
  let ?h = "\<lparr>circuit_breaker = CircuitBreaker_init 3 120, min_num = 5, max_num = 1000000,
       primes_found = [7, 5, 11, 13, 17, 3, 19], attempts = 10\<rparr>"
  note summary = get_summary_contents [of 100 100 ?h]
  have a: "sum_attempts (get_summary 100 100 ?h) = 10"
    using summary [THEN conjunct1] by simp
  have f: "sum_primes_found (get_summary 100 100 ?h) = 7"
    using summary [THEN conjunct2, THEN conjunct1] by simp
  have l: "sum_largest_prime (get_summary 100 100 ?h) = Some 19"
    using summary [THEN conjunct2, THEN conjunct2, THEN conjunct1] by simp
  have le: "int (length (primes_found ?h)) \<le> attempts ?h" by simp
  have "\<bar>sum_prime_hit_rate (get_summary 100 100 ?h)
        - real (length (primes_found ?h)) / real_of_int (max 1 (attempts ?h)) * 100\<bar>
        \<le> 1 / 2 ^ 45"
    by (rule summary [THEN conjunct2, THEN conjunct2, THEN conjunct2, THEN conjunct2,
          THEN conjunct1, THEN mp, OF le])
  moreover have "real (length (primes_found ?h)) / real_of_int (max 1 (attempts ?h)) * 100 = 70"
    by simp
  ultimately have r: "\<bar>sum_prime_hit_rate (get_summary 100 100 ?h) - 70\<bar> \<le> 1 / 2 ^ 45"
    by (simp only:)
  have recent: "sum_recent_primes (get_summary 100 100 ?h) = [19, 17, 13, 11, 3]"
    by (simp add: get_summary_def Let_def last5_def sorted_reverse_def)
  from a f l r recent show ?thesis by (intro conjI)
qed

text \<open>
  Claim C9 says that a constructor rejects a nonpositive threshold, a nonpositive
  cooldown and an inverted range. Threshold 0, cooldown \<open>-5\<close> and the range from 10 down
  to 1 are accepted: both constructor calls return the object, holding these values.
\<close>

theorem constructors_accept_invalid_counterexample:
  "new_CircuitBreaker 0 (- 5)
     = Inr \<lparr>failure_threshold = 0, cooldown_seconds = - 5, tripped_until = 0,
            consecutive_failures = 0, total_failures = 0, total_successes = 0,
            last_failure_time = None\<rparr>
   \<and> new_PrimeHunter 0 (- 5) 10 1
     = Inr \<lparr>circuit_breaker =
              \<lparr>failure_threshold = 0, cooldown_seconds = - 5, tripped_until = 0,
               consecutive_failures = 0, total_failures = 0, total_successes = 0,
               last_failure_time = None\<rparr>,
            min_num = 10, max_num = 1, primes_found = [], attempts = 0\<rparr>"
  by (simp add: new_CircuitBreaker_def new_PrimeHunter_def CircuitBreaker_init_def
      PrimeHunter_init_def)

text \<open>
  Claim C9, as the code has it. The constructors check nothing: every threshold, cooldown
  and range is stored as given, with the counters at 0. An inverted range shows only
  later: the first \<^verbatim>\<open>hunt_prime\<close> that the breaker allows raises \<^verbatim>\<open>ValueError\<close>, from
  \<^verbatim>\<open>random.randint\<close>.
\<close>

theorem constructors_never_reject:
  "new_CircuitBreaker threshold cooldown
     = Inr \<lparr>failure_threshold = threshold, cooldown_seconds = cooldown, tripped_until = 0,
            consecutive_failures = 0, total_failures = 0, total_successes = 0,
            last_failure_time = None\<rparr>
   \<and> new_PrimeHunter threshold cooldown lo hi
     = Inr \<lparr>circuit_breaker =
              \<lparr>failure_threshold = threshold, cooldown_seconds = cooldown, tripped_until = 0,
               consecutive_failures = 0, total_failures = 0, total_successes = 0,
               last_failure_time = None\<rparr>,
            min_num = lo, max_num = hi, primes_found = [], attempts = 0\<rparr>
   \<and> (hi < lo \<and> 0 < t0 \<longrightarrow>
        fst (hunt_prime t0 t1 t2 r (PrimeHunter_init threshold cooldown lo hi)) = Inl ValueError)"
  by (simp add: new_CircuitBreaker_def new_PrimeHunter_def CircuitBreaker_init_def
      PrimeHunter_init_def hunt_prime_def allow_def generate_random_number_def Let_def)

theorem constructors_never_reject_witness:
  "new_PrimeHunter 3 120 10 1 = Inr (PrimeHunter_init 3 120 10 1)
   \<and> fst (hunt_prime 100 100 100 0 (PrimeHunter_init 3 120 10 1)) = Inl ValueError
   \<and> attempts (snd (hunt_prime 100 100 100 0 (PrimeHunter_init 3 120 10 1))) = 1"
  using constructors_never_reject [of 3 120 10 1 100 100 100 0]
  by (simp add: new_PrimeHunter_def PrimeHunter_init_def CircuitBreaker_init_def
      hunt_prime_def allow_def generate_random_number_def Let_def)

end
